theory Spec2Isabelle
  imports Main "HOL-Library.Word"
begin

unbundle bit_operations_syntax

section \<open>Data model\<close>

text \<open>
  A JavaScript string is a sequence of 16-bit code units; \<open>charCodeAt\<close> reads one of
  them and \<open>length\<close> counts them. The pixel data of an \<open>ImageData\<close> object is a
  \<open>Uint8ClampedArray\<close>: a sequence of bytes, four per pixel (red, green, blue, alpha).
\<close>

type_synonym jsstring = "16 word list"
type_synonym u8 = "8 word"

text \<open>String literals of the script, written as ASCII text.\<close>

definition js :: "string \<Rightarrow> jsstring" where
  "js s = map (\<lambda>c. word_of_nat (of_char c)) s"

text \<open>\<open>const delimiter = '|||END|||'\<close>\<close>

definition delimiter :: jsstring where
  "delimiter = js ''|||END|||''"

text \<open>
  The globals the two operations read: the canvas size and \<open>imageData\<close>, which is
  undefined (\<open>None\<close>) until an image was generated or uploaded; its \<open>data\<close> array is
  what the operations work on.
\<close>

record canvas_state =
  canvas_width :: nat
  canvas_height :: nat
  imageData :: "u8 list option"

text \<open>
  What \<open>encodeMessage\<close> reports: each constructor is one of its four \<open>alert\<close> calls.
\<close>

datatype encode_outcome = MissingBuffer | EmptyInput | CapacityExceeded | Encoded

text \<open>
  A run of \<open>encodeMessage\<close>: the alert it shows, the arguments of the calls of
  \<open>stringToBinary\<close> it made (in order), and the globals afterwards.
\<close>

record encode_run =
  alert :: encode_outcome
  converted :: "jsstring list"
  after :: canvas_state

text \<open>
  What \<open>decodeMessage\<close> reports: \<open>Found m\<close> writes the message \<open>m\<close> to the output
  element, \<open>NotFound t\<close> writes the partial text \<open>t\<close> behind the prefix
  "Partial message (no delimiter found): ", \<open>Empty\<close> writes "No readable message could
  be decoded.", \<open>NoImage\<close> is the alert of the missing image, and \<open>NoOutput\<close> is the
  function falling off its loop without writing or alerting anything.
\<close>

datatype decode_outcome = Found jsstring | NotFound jsstring | Empty | NoImage | NoOutput

section \<open>Library functions of JavaScript\<close>

text \<open>The character of a decimal digit: \<open>'0'\<close> is code unit 48.\<close>

definition digit_char :: "nat \<Rightarrow> 16 word" where
  "digit_char d = word_of_nat (48 + d)"

text \<open>
  \<open>Number.prototype.toString(2)\<close> on a non-negative integer: the binary digits, most
  significant first, without leading zeros (\<open>"0"\<close> for zero).
\<close>

fun toString2 :: "nat \<Rightarrow> jsstring" where
  "toString2 n = (if n < 2 then [digit_char n] else toString2 (n div 2) @ [digit_char (n mod 2)])"

declare toString2.simps [simp del]

text \<open>\<open>String.prototype.padStart(n, c)\<close> with a one-character filler.\<close>

definition padStart :: "jsstring \<Rightarrow> nat \<Rightarrow> 16 word \<Rightarrow> jsstring" where
  "padStart s n c = (if n \<le> length s then s else replicate (n - length s) c @ s)"

text \<open>\<open>String.prototype.substr(start, len)\<close> for a non-negative start.\<close>

definition substr :: "jsstring \<Rightarrow> nat \<Rightarrow> nat \<Rightarrow> jsstring" where
  "substr s start len = take len (drop start s)"

text \<open>
  \<open>String.prototype.slice(start)\<close>: a negative start counts from the end of the string.
\<close>

definition slice_from :: "jsstring \<Rightarrow> int \<Rightarrow> jsstring" where
  "slice_from s start =
     (if start < 0 then drop (nat (max (int (length s) + start) 0)) s
      else drop (nat start) s)"

text \<open>\<open>String.prototype.substring(0, end)\<close>: a negative end is taken as 0.\<close>

definition substring0 :: "jsstring \<Rightarrow> int \<Rightarrow> jsstring" where
  "substring0 s e = take (nat (max e 0)) s"

text \<open>\<open>String.prototype.endsWith(t)\<close>\<close>

definition endsWith :: "jsstring \<Rightarrow> jsstring \<Rightarrow> bool" where
  "endsWith s t = (length t \<le> length s \<and> drop (length s - length t) s = t)"

text \<open>
  The code units that \<open>parseInt\<close> skips at the start of its argument: the WhiteSpace and
  LineTerminator code points of ECMAScript.
\<close>

definition is_white_space :: "16 word \<Rightarrow> bool" where
  "is_white_space c =
     (c \<in> {0x0009, 0x000A, 0x000B, 0x000C, 0x000D, 0x0020, 0x00A0, 0x1680,
            0x2028, 0x2029, 0x202F, 0x205F, 0x3000, 0xFEFF}
      \<or> (0x2000 \<le> c \<and> c \<le> 0x200A))"

definition is_bit_char :: "16 word \<Rightarrow> bool" where
  "is_bit_char c = (c = 0x30 \<or> c = 0x31)"

text \<open>The value of a string of binary digits, the first digit most significant.\<close>

definition bin_value :: "jsstring \<Rightarrow> nat" where
  "bin_value z = foldl (\<lambda>acc c. 2 * acc + (if c = 0x31 then 1 else 0)) 0 z"

text \<open>
  \<open>parseInt(s, 2)\<close>: skip leading white space, read an optional sign, then the longest
  run of binary digits; \<open>None\<close> is NaN (no digit there). The value is exact for up to 53
  digits; the script only passes strings of 8 code units.
\<close>

definition parseInt2 :: "jsstring \<Rightarrow> int option" where
  "parseInt2 s =
     (let t = dropWhile is_white_space s;
          sign = (if t \<noteq> [] \<and> hd t = 0x2D then - 1 else 1 :: int);
          u = (if t \<noteq> [] \<and> (hd t = 0x2B \<or> hd t = 0x2D) then tl t else t);
          z = takeWhile is_bit_char u
      in if z = [] then None else Some (sign * int (bin_value z)))"

text \<open>
  \<open>String.fromCharCode(x)\<close> with one argument: the number is reduced to 16 bits; NaN
  gives the code unit 0.
\<close>

definition fromCharCode :: "int option \<Rightarrow> 16 word" where
  "fromCharCode x = (case x of None \<Rightarrow> 0 | Some n \<Rightarrow> word_of_int n)"

section \<open>The text codec: \<open>stringToBinary\<close> and \<open>binaryToString\<close>\<close>

text \<open>The body of the loop of \<open>stringToBinary\<close> for one code unit.\<close>

definition charBinary :: "16 word \<Rightarrow> jsstring" where
  "charBinary c = padStart (toString2 (unat c)) 8 0x30"

text \<open>
  \<open>stringToBinary\<close>: the loop over \<open>i = 0 .. str.length - 1\<close> appends the padded digits of
  \<open>str.charCodeAt(i)\<close> to \<open>binary\<close>.
\<close>

fun stringToBinary_loop :: "jsstring \<Rightarrow> jsstring \<Rightarrow> jsstring" where
  "stringToBinary_loop binary [] = binary"
| "stringToBinary_loop binary (c # str) = stringToBinary_loop (binary @ charBinary c) str"

definition stringToBinary :: "jsstring \<Rightarrow> jsstring" where
  "stringToBinary str = stringToBinary_loop [] str"

text \<open>
  \<open>binaryToString\<close>: the loop reads \<open>binary.substr(i, 8)\<close> for \<open>i = 0, 8, 16, ...\<close> and
  leaves at the first group that is shorter than 8.
\<close>

function binaryToString_loop :: "jsstring \<Rightarrow> nat \<Rightarrow> jsstring \<Rightarrow> jsstring" where
  "binaryToString_loop binary i str =
     (if i < length binary then
        (let byte = substr binary i 8
         in if length byte \<noteq> 8 then str
            else binaryToString_loop binary (i + 8) (str @ [fromCharCode (parseInt2 byte)]))
      else str)"
  by pat_completeness auto
termination
  by (relation "measure (\<lambda>(binary, i, str). length binary - i)") auto

declare binaryToString_loop.simps [simp del]

definition binaryToString :: "jsstring \<Rightarrow> jsstring" where
  "binaryToString binary = binaryToString_loop binary 0 []"

section \<open>Embedding: \<open>encodeMessage\<close>\<close>

text \<open>
  The write loop: \<open>i\<close> steps through the red bytes (\<open>i += 4\<close>), \<open>binaryIndex\<close> through the
  bits; the loop leaves when the bits are used up or the array ends. A bit that is not
  the character \<open>'0'\<close> sets the lowest bit.
\<close>

function encode_loop :: "u8 list \<Rightarrow> jsstring \<Rightarrow> nat \<Rightarrow> nat \<Rightarrow> u8 list" where
  "encode_loop data binaryMessage i binaryIndex =
     (if i < length data then
        (if length binaryMessage \<le> binaryIndex then data
         else encode_loop
                (data[i := (if binaryMessage ! binaryIndex = 0x30
                            then data ! i AND 0xFE else data ! i OR 0x01)])
                binaryMessage (i + 4) (binaryIndex + 1))
      else data)"
  by pat_completeness auto
termination
  by (relation "measure (\<lambda>(data, binaryMessage, i, binaryIndex). length data - i)") auto

declare encode_loop.simps [simp del]

text \<open>
  \<open>encodeMessage\<close>: the checks, the conversion, the capacity test against
  \<open>canvas.width * canvas.height\<close> and the write loop. After the loop the script puts the
  array on the canvas and reads it back (\<open>putImageData\<close>, \<open>getImageData\<close>); the canvas is
  outside this model and the read-back is taken to return the bytes that were put.
\<close>

definition encodeMessage :: "canvas_state \<Rightarrow> jsstring \<Rightarrow> encode_run" where
  "encodeMessage st message =
     (case imageData st of
        None \<Rightarrow> \<lparr>alert = MissingBuffer, converted = [], after = st\<rparr>
      | Some data \<Rightarrow>
          if message = [] then \<lparr>alert = EmptyInput, converted = [], after = st\<rparr>
          else
            (let messageWithDelimiter = message @ delimiter;
                 binaryMessage = stringToBinary messageWithDelimiter;
                 pixelCount = canvas_width st * canvas_height st
             in if pixelCount < length binaryMessage
                then \<lparr>alert = CapacityExceeded, converted = [messageWithDelimiter], after = st\<rparr>
                else \<lparr>alert = Encoded, converted = [messageWithDelimiter],
                      after = st\<lparr>imageData := Some (encode_loop data binaryMessage 0 0)\<rparr>\<rparr>))"

section \<open>Extraction: \<open>decodeMessage\<close>\<close>

text \<open>
  The check at the end of each round of the scan: on the last pixel
  (\<open>i >= data.length - 4\<close>) the scan reports what it has.
\<close>

definition at_last_pixel :: "u8 list \<Rightarrow> nat \<Rightarrow> bool" where
  "at_last_pixel data i = (int (length data) - 4 \<le> int i)"

text \<open>
  What the scan reports there: the partial text when \<open>extractedText.length > 0\<close>, and
  that nothing readable was decoded otherwise.
\<close>

definition exhausted :: "jsstring \<Rightarrow> decode_outcome" where
  "exhausted extractedText = (if 0 < length extractedText then NotFound extractedText else Empty)"

text \<open>
  The scan: \<open>i\<close> steps through the red bytes; each round appends the low bit to
  \<open>binaryMessage\<close>, decodes the last 8 bits into a character whenever the length is a
  multiple of 8, and returns as soon as \<open>extractedText\<close> ends with the delimiter. When the
  array is empty the loop body never runs and the function returns without output.
\<close>

function decode_loop :: "u8 list \<Rightarrow> nat \<Rightarrow> jsstring \<Rightarrow> jsstring \<Rightarrow> decode_outcome" where
  "decode_loop data i binaryMessage extractedText =
     (if i < length data then
        (let lsb = data ! i AND 0x01;
             binaryMessage = binaryMessage @ [digit_char (unat lsb)]
         in if length binaryMessage mod 8 = 0 then
              (let byteStr = slice_from binaryMessage (int (length binaryMessage) - 8);
                   asciiCode = parseInt2 byteStr;
                   char = fromCharCode asciiCode;
                   extractedText = extractedText @ [char]
               in if endsWith extractedText delimiter
                  then Found (substring0 extractedText
                                (int (length extractedText) - int (length delimiter)))
                  else if at_last_pixel data i then exhausted extractedText
                  else decode_loop data (i + 4) binaryMessage extractedText)
            else if at_last_pixel data i then exhausted extractedText
            else decode_loop data (i + 4) binaryMessage extractedText)
      else NoOutput)"
  by pat_completeness auto
termination
  by (relation "measure (\<lambda>(data, i, binaryMessage, extractedText). length data - i)") auto

declare decode_loop.simps [simp del]

definition decodeMessage :: "canvas_state \<Rightarrow> decode_outcome" where
  "decodeMessage st =
     (case imageData st of
        None \<Rightarrow> NoImage
      | Some data \<Rightarrow> decode_loop data 0 [] [])"

section \<open>Notions of the specification\<close>

text \<open>
  The \<open>k\<close>-bit binary representation of a number, most significant bit first and
  zero-padded: the digit at position \<open>i\<close> is bit \<open>k - 1 - i\<close> of the number.
\<close>

definition msb_bits :: "nat \<Rightarrow> nat \<Rightarrow> jsstring" where
  "msb_bits k n = map (\<lambda>i. digit_char (n div 2 ^ (k - 1 - i) mod 2)) [0..<k]"

text \<open>
  The bits an extraction reads: the lowest bit of the red byte of every pixel, in pixel
  order. The red byte of pixel \<open>k\<close> is at index \<open>4 * k\<close>.
\<close>

definition red_lsbs :: "u8 list \<Rightarrow> jsstring" where
  "red_lsbs data =
     map (\<lambda>k. digit_char (unat (data ! (4 * k) AND 0x01))) [0..<(length data + 3) div 4]"

text \<open>
  The end of the hidden message in a text that arrives character by character: after
  each new character the text read so far is checked for the delimiter at its end; the
  first time it is there, the text before the delimiter is the message. \<open>None\<close>: the
  delimiter never ends the text read so far.
\<close>

fun find_end :: "jsstring \<Rightarrow> jsstring \<Rightarrow> jsstring option" where
  "find_end txt [] = None"
| "find_end txt (c # cs) =
     (if endsWith (txt @ [c]) delimiter
      then Some (take (length (txt @ [c]) - length delimiter) (txt @ [c]))
      else find_end (txt @ [c]) cs)"

text \<open>The three results an extraction may report.\<close>

fun is_result :: "decode_outcome \<Rightarrow> bool" where
  "is_result (Found m) = True"
| "is_result (NotFound t) = True"
| "is_result Empty = True"
| "is_result NoImage = False"
| "is_result NoOutput = False"

section \<open>The scan as a function of the bits to be read\<close>

text \<open>
  An auxiliary form of the loop of \<open>decodeMessage\<close>, used in the proofs: the same rounds,
  driven by the list of bits still to be read instead of the index into the array, with
  the bits read so far and the text decoded so far. The lemma \<open>decode_loop_scan\<close> below
  shows that the loop computes it on the red low bits.
\<close>

fun scan_bits :: "jsstring \<Rightarrow> jsstring \<Rightarrow> jsstring \<Rightarrow> decode_outcome" where
  "scan_bits [] bm txt = NoOutput"
| "scan_bits (b # bs) bm txt =
     (if length (bm @ [b]) mod 8 = 0 then
        (let txt' = txt @ [fromCharCode (parseInt2 (drop (length (bm @ [b]) - 8) (bm @ [b])))]
         in if endsWith txt' delimiter
            then Found (take (length txt' - length delimiter) txt')
            else if bs = [] then exhausted txt'
            else scan_bits bs (bm @ [b]) txt')
      else if bs = [] then exhausted txt
      else scan_bits bs (bm @ [b]) txt)"

section \<open>Properties of the library functions and the codec\<close>

lemma digit_char_simps: "digit_char 0 = 0x30" "digit_char (Suc 0) = 0x31" "digit_char 1 = 0x31"
  by (simp_all add: digit_char_def)

lemma digit_char_mod2: "digit_char (n mod 2) = (if even n then 0x30 else 0x31)"
  by (auto simp: digit_char_simps odd_iff_mod_2_eq_one)

lemma is_bit_char_digit: "is_bit_char (digit_char (n mod 2))"
  by (simp add: digit_char_mod2 is_bit_char_def)

lemma padStart_eq: "padStart s n c = replicate (n - length s) c @ s"
  by (simp add: padStart_def)

lemma toString2_small: "n < 2 \<Longrightarrow> toString2 n = [digit_char n]"
  by (simp add: toString2.simps [of n])

lemma toString2_big: "2 \<le> n \<Longrightarrow> toString2 n = toString2 (n div 2) @ [digit_char (n mod 2)]"
  by (simp add: toString2.simps [of n])

lemma msb_bits_Suc: "msb_bits (Suc k) n = msb_bits k (n div 2) @ [digit_char (n mod 2)]"
proof -
  have "n div 2 ^ (k - i) = n div 2 div 2 ^ (k - 1 - i)" if "i < k" for i
  proof -
    from that have "k - i = Suc (k - 1 - i)" by simp
    then show ?thesis by (simp add: div_mult2_eq)
  qed
  then show ?thesis by (simp add: msb_bits_def)
qed

lemma length_msb_bits: "length (msb_bits k n) = k"
  by (simp add: msb_bits_def)

lemma msb_bits_zero: "msb_bits k 0 = replicate k 0x30"
  by (induction k) (simp_all add: msb_bits_Suc digit_char_simps replicate_append_same, simp add: msb_bits_def)

lemma pad_toString2:
  "0 < k \<Longrightarrow> n < 2 ^ k \<Longrightarrow> replicate (k - length (toString2 n)) 0x30 @ toString2 n = msb_bits k n"
proof (induction k arbitrary: n)
  case 0
  then show ?case by simp
next
  case (Suc k)
  show ?case
  proof (cases "n < 2")
    case True
    then have "n div 2 = 0" "n mod 2 = n" by simp_all
    with True show ?thesis
      by (simp add: toString2_small msb_bits_Suc msb_bits_zero)
  next
    case False
    then have k: "0 < k" using Suc.prems(2) by (cases k) simp_all
    from Suc.prems(2) have "n div 2 < 2 ^ k" by (simp add: less_mult_imp_div_less mult.commute)
    from Suc.IH [OF k this] False show ?thesis
      by (simp add: toString2_big msb_bits_Suc)
  qed
qed

lemma length_toString2_le: "0 < k \<Longrightarrow> n < 2 ^ k \<Longrightarrow> length (toString2 n) \<le> k"
proof (induction k arbitrary: n)
  case 0
  then show ?case by simp
next
  case (Suc k)
  show ?case
  proof (cases "n < 2")
    case True
    then show ?thesis by (simp add: toString2_small)
  next
    case False
    then have k: "0 < k" using Suc.prems(2) by (cases k) simp_all
    from Suc.prems(2) have "n div 2 < 2 ^ k" by (simp add: less_mult_imp_div_less mult.commute)
    from Suc.IH [OF k this] False show ?thesis
      by (simp add: toString2_big)
  qed
qed

lemma length_toString2_gt: "2 ^ k \<le> n \<Longrightarrow> k < length (toString2 n)"
proof (induction k arbitrary: n)
  case 0
  then show ?case by (cases "n < 2") (simp_all add: toString2_small toString2_big)
next
  case (Suc k)
  then have "2 \<le> n"
    by (metis One_nat_def Suc_1 le_trans one_le_numeral one_le_power power_Suc0_right power_increasing zero_less_Suc Suc_leI)
  moreover from Suc.prems have "2 ^ k \<le> n div 2" by simp
  ultimately show ?case using Suc.IH [of "n div 2"] by (simp add: toString2_big)
qed

lemma charBinary_byte: "unat c < 256 \<Longrightarrow> charBinary c = msb_bits 8 (unat c)"
  using pad_toString2 [of 8 "unat c"] by (simp add: charBinary_def padStart_eq)

lemma charBinary_wide: "256 \<le> unat c \<Longrightarrow> charBinary c = toString2 (unat c)"
  using length_toString2_gt [of 8 "unat c"] by (simp add: charBinary_def padStart_def)

lemma stringToBinary_loop_eq: "stringToBinary_loop binary str = binary @ concat (map charBinary str)"
  by (induction str arbitrary: binary) simp_all

lemma stringToBinary_eq: "stringToBinary str = concat (map charBinary str)"
  by (simp add: stringToBinary_def stringToBinary_loop_eq)

lemma bin_value_snoc: "bin_value (z @ [c]) = 2 * bin_value z + (if c = 0x31 then 1 else 0)"
  by (simp add: bin_value_def)

lemma bin_value_msb_bits: "bin_value (msb_bits k n) = n mod 2 ^ k"
proof (induction k arbitrary: n)
  case 0
  then show ?case by (simp add: msb_bits_def bin_value_def)
next
  case (Suc k)
  have "n mod (2 * 2 ^ k) = 2 * (n div 2 mod 2 ^ k) + n mod 2"
    by (rule mod_mult2_eq)
  with Suc show ?case
    by (simp add: msb_bits_Suc bin_value_snoc digit_char_mod2 odd_iff_mod_2_eq_one)
qed

lemma bit_chars_msb_bits: "c \<in> set (msb_bits k n) \<Longrightarrow> is_bit_char c"
  by (auto simp: msb_bits_def is_bit_char_digit)

lemma not_white_bit: "is_bit_char c \<Longrightarrow> \<not> is_white_space c"
  by (auto simp: is_bit_char_def is_white_space_def)

lemma parseInt2_bits:
  assumes "z \<noteq> []" and "\<forall>c\<in>set z. is_bit_char c"
  shows "parseInt2 z = Some (int (bin_value z))"
proof -
  from assms obtain a z' where z: "z = a # z'" by (cases z) auto
  with assms have a: "is_bit_char a" by simp
  then have dw: "dropWhile is_white_space z = z" by (simp add: z not_white_bit)
  from a have hd: "hd z \<noteq> 0x2D" "hd z \<noteq> 0x2B" by (auto simp: z is_bit_char_def)
  from assms have tw: "takeWhile is_bit_char z = z" by simp
  show ?thesis unfolding parseInt2_def Let_def dw using hd assms(1) by (simp add: tw)
qed

lemma decode_msb_bits: "n < 256 \<Longrightarrow> fromCharCode (parseInt2 (msb_bits 8 n)) = word_of_nat n"
proof -
  assume "n < 256"
  have "msb_bits 8 n \<noteq> []" using length_msb_bits [of 8 n] by auto
  then have "parseInt2 (msb_bits 8 n) = Some (int (bin_value (msb_bits 8 n)))"
    by (rule parseInt2_bits) (simp add: bit_chars_msb_bits)
  with \<open>n < 256\<close> show ?thesis by (simp add: fromCharCode_def bin_value_msb_bits)
qed

lemma decode_charBinary: "unat c < 256 \<Longrightarrow> fromCharCode (parseInt2 (charBinary c)) = c"
  by (simp add: charBinary_byte decode_msb_bits)

section \<open>Properties of \<open>binaryToString\<close> and \<open>stringToBinary\<close>\<close>

lemma b2s_acc: "binaryToString_loop b i str = str @ binaryToString_loop b i []"
proof (induction "length b - i" arbitrary: i str rule: less_induct)
  case less
  show ?case
  proof (cases "i < length b \<and> length (substr b i 8) = 8")
    case True
    define ch where "ch = fromCharCode (parseInt2 (substr b i 8))"
    from True have m: "length b - (i + 8) < length b - i" by linarith
    have "binaryToString_loop b i str = binaryToString_loop b (i + 8) (str @ [ch])"
      using True by (simp add: binaryToString_loop.simps [of b i str] ch_def)
    also have "\<dots> = (str @ [ch]) @ binaryToString_loop b (i + 8) []"
      by (rule less [OF m])
    also have "\<dots> = str @ binaryToString_loop b (i + 8) ([] @ [ch])"
      using less [OF m, of "[ch]"] by simp
    also have "binaryToString_loop b (i + 8) ([] @ [ch]) = binaryToString_loop b i []"
      using True by (simp add: binaryToString_loop.simps [of b i "[]"] ch_def)
    finally show ?thesis .
  next
    case False
    then show ?thesis
      by (auto simp: binaryToString_loop.simps [of b i str] binaryToString_loop.simps [of b i "[]"] Let_def)
  qed
qed

lemma b2s_shift: "binaryToString_loop (p @ b) (length p + i) [] = binaryToString_loop b i []"
proof (induction "length b - i" arbitrary: i rule: less_induct)
  case less
  have sub: "substr (p @ b) (length p + i) 8 = substr b i 8"
    by (simp add: substr_def)
  show ?case
  proof (cases "i < length b \<and> length (substr b i 8) = 8")
    case True
    define ch where "ch = fromCharCode (parseInt2 (substr b i 8))"
    from True have m: "length b - (i + 8) < length b - i" by linarith
    have "binaryToString_loop (p @ b) (length p + i) [] = binaryToString_loop (p @ b) (length p + (i + 8)) [ch]"
      using True by (simp add: binaryToString_loop.simps [of "p @ b" "length p + i"] sub ch_def add.assoc)
    also have "\<dots> = [ch] @ binaryToString_loop (p @ b) (length p + (i + 8)) []"
      by (rule b2s_acc)
    also have "\<dots> = [ch] @ binaryToString_loop b (i + 8) []"
      using less [OF m] by simp
    also have "\<dots> = binaryToString_loop b (i + 8) [ch]"
      by (rule b2s_acc [symmetric])
    also have "\<dots> = binaryToString_loop b i []"
      using True by (simp add: binaryToString_loop.simps [of b i "[]"] ch_def)
    finally show ?thesis .
  next
    case False
    then show ?thesis
      by (auto simp: binaryToString_loop.simps [of "p @ b" "length p + i"] sub
          binaryToString_loop.simps [of b i "[]"] Let_def)
  qed
qed

lemma binaryToString_short: "length b < 8 \<Longrightarrow> binaryToString b = []"
  by (simp add: binaryToString_def binaryToString_loop.simps [of b 0] substr_def)

lemma binaryToString_group:
  assumes "length w = 8"
  shows "binaryToString (w @ rest) = fromCharCode (parseInt2 w) # binaryToString rest"
proof -
  define ch where "ch = fromCharCode (parseInt2 w)"
  have "binaryToString (w @ rest) = binaryToString_loop (w @ rest) (length w + 0) [ch]"
    using assms by (simp add: binaryToString_def binaryToString_loop.simps [of "w @ rest" 0] substr_def ch_def)
  also have "\<dots> = [ch] @ binaryToString_loop (w @ rest) (length w + 0) []"
    by (rule b2s_acc)
  also have "\<dots> = [ch] @ binaryToString rest"
    unfolding b2s_shift by (simp add: binaryToString_def)
  finally show ?thesis by (simp add: ch_def)
qed

lemma split_group:
  assumes "8 \<le> length b"
  obtains w rest where "b = w @ rest" "length w = 8"
proof
  show "b = take 8 b @ drop 8 b" by simp
  show "length (take 8 b) = 8" using assms by simp
qed

text \<open>
  Claim C7 (partial-byte discard): for every string of length \<open>8k + r\<close> with
  \<open>0 < r < 8\<close>, \<open>binaryToString\<close> returns the text it returns on the first \<open>8k\<close>
  code units: the trailing group of \<open>r\<close> is dropped and nothing fails. This holds for
  every string, so in particular for every string of bits.
\<close>

theorem binaryToString_discards_partial_group:
  "length b = 8 * k + r \<Longrightarrow> 0 < r \<Longrightarrow> r < 8 \<Longrightarrow>
   binaryToString b = binaryToString (take (8 * k) b)"
proof (induction k arbitrary: b)
  case 0
  then show ?case by (simp add: binaryToString_short)
next
  case (Suc k)
  then have "8 \<le> length b" by simp
  then obtain w rest where b: "b = w @ rest" and w: "length w = 8" by (rule split_group)
  with Suc.prems have "length rest = 8 * k + r" by simp
  from Suc.IH [OF this Suc.prems(2,3)] show ?case
    using w by (simp add: b binaryToString_group)
qed

theorem binaryToString_discards_partial_group_witness:
  "length (js ''01000001101'') = 8 * 1 + 3
   \<and> binaryToString (js ''01000001101'') = binaryToString (take (8 * 1) (js ''01000001101''))"
  using binaryToString_discards_partial_group [of "js ''01000001101''" 1 3]
  by (simp add: js_def)

lemma length_charBinary_ge: "8 \<le> length (charBinary c)"
  by (simp add: charBinary_def padStart_def)

lemma length_stringToBinary_ge: "8 * length s \<le> length (stringToBinary s)"
proof (induction s)
  case Nil
  then show ?case by (simp add: stringToBinary_eq)
next
  case (Cons c s)
  with length_charBinary_ge [of c] show ?case by (simp add: stringToBinary_eq)
qed

lemma bin_value_toString2: "bin_value (toString2 n) = n"
proof (induction n rule: toString2.induct)
  case (1 n)
  show ?case
  proof (cases "n < 2")
    case True
    then have "n = 0 \<or> n = 1" by auto
    then show ?thesis by (auto simp: toString2_small bin_value_def digit_char_simps)
  next
    case False
    with 1 show ?thesis
      by (simp add: toString2_big bin_value_snoc digit_char_mod2 odd_iff_mod_2_eq_one)
  qed
qed

lemma stringToBinary_bytes:
  assumes "\<forall>c\<in>set str. unat c < 256"
  shows "stringToBinary str = concat (map (\<lambda>c. msb_bits 8 (unat c)) str)"
proof -
  from assms have eq: "map charBinary str = map (\<lambda>c. msb_bits 8 (unat c)) str"
    by (simp add: charBinary_byte)
  show ?thesis unfolding stringToBinary_eq eq ..
qed

lemma length_stringToBinary_bytes:
  assumes "\<forall>c\<in>set str. unat c < 256"
  shows "length (stringToBinary str) = 8 * length str"
proof -
  have "length (concat (map (\<lambda>c. msb_bits 8 (unat c)) str)) = 8 * length str"
    by (induction str) (simp_all add: length_msb_bits)
  then show ?thesis by (simp only: stringToBinary_bytes [OF assms])
qed

text \<open>
  Claim C8 (encode format): when every code unit of the string is in 0..255,
  \<open>stringToBinary\<close> is the concatenation, in character order, of the 8-bit
  representations (most significant bit first, zero-padded) of the code units, and its
  length is 8 times the number of characters.
\<close>

theorem stringToBinary_format:
  assumes "\<forall>c\<in>set str. unat c < 256"
  shows "stringToBinary str = concat (map (\<lambda>c. msb_bits 8 (unat c)) str)
       \<and> length (stringToBinary str) = 8 * length str"
  using assms
proof (induction str)
  case Nil
  show ?case by (simp add: stringToBinary_eq)
next
  case (Cons c str)
  then have c: "charBinary c = msb_bits 8 (unat c)"
    by (simp add: charBinary_byte)
  from Cons.prems have "\<forall>c\<in>set str. unat c < 256" by simp
  note ih = Cons.IH [OF this]
  have step: "stringToBinary (c # str) = msb_bits 8 (unat c) @ stringToBinary str"
    by (simp add: stringToBinary_eq c)
  have "stringToBinary (c # str) = concat (map (\<lambda>c. msb_bits 8 (unat c)) (c # str))"
    unfolding step by (simp add: ih [THEN conjunct1, symmetric])
  moreover have "length (stringToBinary (c # str)) = 8 * length (c # str)"
    unfolding step by (simp add: length_msb_bits ih [THEN conjunct2])
  ultimately show ?case ..
qed

theorem stringToBinary_format_witness:
  "stringToBinary (js ''Hi'') = js ''0100100001101001''
   \<and> length (stringToBinary (js ''Hi'')) = 8 * length (js ''Hi'')"
proof -
  have h: "\<forall>c\<in>set (js ''Hi''). unat c < 256" by (simp add: js_def)
  have "concat (map (\<lambda>c. msb_bits 8 (unat c)) (js ''Hi'')) = js ''0100100001101001''"
    by (simp add: js_def msb_bits_def digit_char_def upt_rec)
  with h stringToBinary_format [OF h] show ?thesis by (simp add: js_def)
qed

lemma binaryToString_stringToBinary:
  "\<forall>c\<in>set s. unat c < 256 \<Longrightarrow> binaryToString (stringToBinary s @ rest) = s @ binaryToString rest"
proof (induction s)
  case Nil
  then show ?case by (simp add: stringToBinary_eq)
next
  case (Cons c s)
  then have c: "unat c < 256" by simp
  then have "length (charBinary c) = 8" by (simp add: charBinary_byte length_msb_bits)
  then have "binaryToString (charBinary c @ (stringToBinary s @ rest))
               = fromCharCode (parseInt2 (charBinary c)) # binaryToString (stringToBinary s @ rest)"
    by (rule binaryToString_group)
  with Cons c show ?case
    by (simp add: stringToBinary_eq decode_charBinary)
qed

text \<open>
  Claim C10 (wide characters), as amended: for a code unit of 256 or more,
  \<open>stringToBinary\<close> emits the full binary representation of the code unit (its value is
  the code unit), which has more than 8 and at most 16 digits. In a string that contains
  such a character the characters after it therefore begin later than 8 bits per
  character into the stream, and the whole output is longer than 8 times the number of
  characters. The characters after it are moved off the 8-bit grid only when the code
  unit is below 32768: from 32768 on exactly 16 digits are emitted, and after
  single-byte characters what follows such a character begins on a multiple of 8 again.
\<close>

theorem wide_char_shifts_stream:
  assumes "256 \<le> unat c"
  shows "stringToBinary [c] = toString2 (unat c)
       \<and> bin_value (stringToBinary [c]) = unat c
       \<and> 8 < length (stringToBinary [c]) \<and> length (stringToBinary [c]) \<le> 16
       \<and> stringToBinary (pre @ c # post) = stringToBinary pre @ stringToBinary [c] @ stringToBinary post
       \<and> 8 * length (pre @ [c]) < length (stringToBinary pre @ stringToBinary [c])
       \<and> 8 * length (pre @ c # post) < length (stringToBinary (pre @ c # post))
       \<and> (length (stringToBinary [c]) mod 8 = 0) = (32768 \<le> unat c)
       \<and> ((\<forall>x\<in>set pre. unat x < 256) \<longrightarrow>
            (length (stringToBinary pre @ stringToBinary [c]) mod 8 = 0) = (32768 \<le> unat c))"
proof -
  from assms have one: "stringToBinary [c] = toString2 (unat c)"
    by (simp add: stringToBinary_eq charBinary_wide)
  have len: "8 < length (stringToBinary [c])"
    using length_toString2_gt [of 8 "unat c"] assms by (simp add: one)
  have "unat c < 2 ^ 16" using unsigned_less [of c] by simp
  then have le: "length (stringToBinary [c]) \<le> 16"
    unfolding one by (intro length_toString2_le) simp_all
  have app: "stringToBinary (pre @ c # post) = stringToBinary pre @ stringToBinary [c] @ stringToBinary post"
    by (simp add: stringToBinary_eq)
  from len length_stringToBinary_ge [of pre]
  have off: "8 * length (pre @ [c]) < length (stringToBinary pre @ stringToBinary [c])" by simp
  from off length_stringToBinary_ge [of post]
  have total: "8 * length (pre @ c # post) < length (stringToBinary (pre @ c # post))"
    by (simp add: app)
  have al: "(length (stringToBinary [c]) mod 8 = 0) = (32768 \<le> unat c)"
  proof (cases "32768 \<le> unat c")
    case True
    then have "15 < length (stringToBinary [c])"
      unfolding one by (intro length_toString2_gt) simp
    with le have "length (stringToBinary [c]) = 16" by simp
    with True show ?thesis by simp
  next
    case False
    then have "unat c < 2 ^ 15" by simp
    then have "length (stringToBinary [c]) \<le> 15"
      unfolding one by (intro length_toString2_le) simp_all
    with len have "length (stringToBinary [c]) mod 8 \<noteq> 0" by presburger
    with False show ?thesis by simp
  qed
  have bv: "bin_value (stringToBinary [c]) = unat c"
    by (simp only: one bin_value_toString2)
  have grid: "(length (stringToBinary pre @ stringToBinary [c]) mod 8 = 0) = (32768 \<le> unat c)"
    if "\<forall>x\<in>set pre. unat x < 256"
  proof -
    have "length (stringToBinary pre) = 8 * length pre"
      using that by (rule length_stringToBinary_bytes)
    then have "length (stringToBinary pre @ stringToBinary [c]) mod 8
                 = length (stringToBinary [c]) mod 8" by simp
    with al show ?thesis by (simp only:)
  qed
  from one bv len le app off total al grid show ?thesis by blast
qed


theorem wide_char_shifts_stream_witness:
  "256 \<le> unat (0x100 :: 16 word)
   \<and> stringToBinary [0x100] = js ''100000000''
   \<and> 8 * length [0x61, 0x100, 0x62 :: 16 word] < length (stringToBinary [0x61, 0x100, 0x62])"
proof -
  have h: "256 \<le> unat (0x100 :: 16 word)" by simp
  note w = wide_char_shifts_stream [OF h, of "[0x61]" "[0x62]"]
  have t: "toString2 (unat (0x100 :: 16 word)) = js ''100000000''"
    by (simp add: toString2.simps js_def digit_char_def)
  from w [THEN conjunct1] t have a: "stringToBinary [0x100] = js ''100000000''" by simp
  from w [THEN conjunct2, THEN conjunct2, THEN conjunct2, THEN conjunct2, THEN conjunct2,
          THEN conjunct2, THEN conjunct1]
  have b: "8 * length [0x61, 0x100, 0x62 :: 16 word] < length (stringToBinary [0x61, 0x100, 0x62])"
    by (simp only: append.simps)
  from h a b show ?thesis by blast
qed

text \<open>
  The characters after a wide character are not always moved off the 8-bit grid: the
  code unit 0x8000 takes 16 digits, so in \<open>a\<close>, 0x8000, \<open>b\<close> the digits of \<open>b\<close> begin at bit
  24, and \<open>binaryToString\<close> reads the wide character as two characters and \<open>b\<close> intact.
\<close>

theorem wide_char_alignment_counterexample:
  "256 \<le> unat (0x8000 :: 16 word)
   \<and> stringToBinary [0x61, 0x8000, 0x62] = stringToBinary [0x61, 0x8000] @ msb_bits 8 0x62
   \<and> length (stringToBinary [0x61, 0x8000]) = 24
   \<and> length (stringToBinary [0x61, 0x8000]) mod 8 = 0
   \<and> binaryToString (stringToBinary [0x61, 0x8000, 0x62]) = [0x61, 0x80, 0x00, 0x62]"
proof -
  have h: "256 \<le> unat (0x8000 :: 16 word)" by simp
  have t: "toString2 32768 = js ''1000000000000000''"
    by (simp add: toString2.simps js_def digit_char_def)
  have wide: "charBinary (0x8000 :: 16 word) = js ''1000000000000000''"
    using charBinary_wide [OF h] t by simp
  have two: "charBinary (0x80 :: 16 word) @ charBinary 0x00 = js ''1000000000000000''"
    by (simp add: charBinary_byte msb_bits_def digit_char_def js_def upt_rec)
  have b: "charBinary (0x62 :: 16 word) = msb_bits 8 0x62"
    using charBinary_byte [of "0x62 :: 16 word"] by simp
  have split: "stringToBinary [0x61, 0x8000, 0x62] = stringToBinary [0x61, 0x8000] @ msb_bits 8 0x62"
    by (simp add: stringToBinary_eq b)
  have "length (charBinary (0x61 :: 16 word)) = 8"
    by (simp add: charBinary_byte length_msb_bits)
  then have l24: "length (stringToBinary [0x61, 0x8000]) = 24"
    by (simp add: stringToBinary_eq wide js_def)
  have same: "stringToBinary [0x61, 0x8000, 0x62] = stringToBinary [0x61, 0x80, 0x00, 0x62]"
    unfolding stringToBinary_eq using wide two by simp
  have "binaryToString (stringToBinary [0x61, 0x80, 0x00, 0x62] @ [])
          = [0x61, 0x80, 0x00, 0x62] @ binaryToString []"
    by (rule binaryToString_stringToBinary) simp
  then have dec: "binaryToString (stringToBinary [0x61, 0x8000, 0x62]) = [0x61, 0x80, 0x00, 0x62]"
    by (simp add: same binaryToString_short)
  from h split l24 dec show ?thesis by simp
qed

section \<open>Properties of \<open>encodeMessage\<close>\<close>

lemma fe_not_one: "(0xFE :: 8 word) = NOT 1"
  by simp

lemma and_fe_idem: "(x AND 0xFE) AND 0xFE = x AND (0xFE :: 8 word)"
  by (simp add: and.assoc)

lemma or_one_and_fe: "(x OR 1) AND 0xFE = x AND (0xFE :: 8 word)"
  unfolding fe_not_one by (rule bit_eqI) (auto simp: bit_simps)

lemma and_fe_lsb: "(x AND (0xFE :: 8 word)) AND 1 = 0"
  unfolding fe_not_one by (rule bit_eqI) (auto simp: bit_simps)

lemma or_one_lsb: "(x OR (1 :: 8 word)) AND 1 = 1"
  by (rule bit_eqI) (auto simp: bit_simps)

lemma nat_and_254: "(n::nat) AND 254 = 2 * ((n div 2) AND 127)"
  by (simp add: and_nat_rec [of n 254])

lemma nat_and_127: "(k::nat) < 128 \<Longrightarrow> k AND 127 = k"
proof -
  assume "k < 128"
  have "k AND 127 = take_bit 7 k" by (simp add: take_bit_eq_mask mask_eq_exp_minus_1)
  with \<open>k < 128\<close> show ?thesis by (simp add: take_bit_nat_eq_self)
qed

lemma unat_and_fe: "unat (x AND (0xFE :: 8 word)) = 2 * (unat x div 2)"
proof -
  have "unat x < 2 ^ 8" using unsigned_less [of x] by simp
  then have "unat x div 2 < 128" by simp
  moreover have "unat (x AND 0xFE) = unat x AND 254" by (simp add: unsigned_and_eq)
  ultimately show ?thesis by (simp add: nat_and_254 nat_and_127)
qed

lemma unat_or_one: "unat (x OR (1 :: 8 word)) = 2 * (unat x div 2) + 1"
proof -
  have "unat (x OR 1) = unat x OR 1" by (simp add: unsigned_or_eq)
  also have "\<dots> = unat x + of_bool (even (unat x))" by (rule or_one_eq)
  also have "\<dots> = 2 * (unat x div 2) + 1" by (cases "even (unat x)") auto
  finally show ?thesis .
qed

lemma length_encode_loop: "length (encode_loop data bin i bi) = length data"
proof (induction data bin i bi rule: encode_loop.induct)
  case (1 data bin i bi)
  show ?case
  proof (cases "i < length data \<and> bi < length bin")
    case True
    with 1 show ?thesis by (simp add: encode_loop.simps [of data bin i bi])
  next
    case False
    then show ?thesis by (auto simp: encode_loop.simps [of data bin i bi])
  qed
qed

lemma encode_loop_nth:
  assumes "i = 4 * bi" and "j < length data"
  shows "encode_loop data bin i bi ! j =
           (if j mod 4 = 0 \<and> bi \<le> j div 4 \<and> j div 4 < length bin
            then (if bin ! (j div 4) = 0x30 then data ! j AND 0xFE else data ! j OR 0x01)
            else data ! j)"
  using assms
proof (induction data bin i bi rule: encode_loop.induct)
  case (1 data bin i bi)
  show ?case
  proof (cases "i < length data \<and> bi < length bin")
    case True
    define v where "v = (if bin ! bi = 0x30 then data ! i AND 0xFE else data ! i OR 0x01)"
    have step: "encode_loop data bin i bi = encode_loop (data[i := v]) bin (i + 4) (bi + 1)"
      using True by (simp add: encode_loop.simps [of data bin i bi] v_def)
    have ih: "encode_loop (data[i := v]) bin (i + 4) (bi + 1) ! j =
           (if j mod 4 = 0 \<and> bi + 1 \<le> j div 4 \<and> j div 4 < length bin
            then (if bin ! (j div 4) = 0x30 then data[i := v] ! j AND 0xFE else data[i := v] ! j OR 0x01)
            else data[i := v] ! j)"
      unfolding v_def by (rule "1.IH") (use True "1.prems" in simp_all)
    show ?thesis
    proof (cases "j = i")
      case True
      with \<open>i = 4 * bi\<close> have j: "j mod 4 = 0" "j div 4 = bi" by simp_all
      have "encode_loop data bin i bi ! j = data[i := v] ! j"
        unfolding step ih using j by simp
      also have "\<dots> = v"
        using True \<open>i < length data \<and> bi < length bin\<close> by simp
      finally show ?thesis
        using j True \<open>i < length data \<and> bi < length bin\<close> by (simp add: v_def)
    next
      case False
      with \<open>i = 4 * bi\<close> have "\<not> (j mod 4 = 0 \<and> j div 4 = bi)" by auto
      then have c: "(j mod 4 = 0 \<and> bi + 1 \<le> j div 4 \<and> j div 4 < length bin)
                 = (j mod 4 = 0 \<and> bi \<le> j div 4 \<and> j div 4 < length bin)"
        by auto
      from False have d: "data[i := v] ! j = data ! j" by simp
      show ?thesis unfolding step ih c d ..
    qed
  next
    case False
    have e: "encode_loop data bin i bi = data"
      using False by (auto simp: encode_loop.simps [of data bin i bi])
    have c: "(j mod 4 = 0 \<and> bi \<le> j div 4 \<and> j div 4 < length bin) = False"
      using False "1.prems" by (auto simp: mod_eq_0_iff_dvd elim!: dvdE)
    show ?thesis unfolding e c by simp
  qed
qed


lemma length_delimiter: "length delimiter = 9"
  by (simp add: delimiter_def js_def)

lemma delimiter_bytes: "\<forall>c\<in>set delimiter. unat c < 256"
  by (simp add: delimiter_def js_def)

lemma framed_length:
  assumes "\<forall>c\<in>set message. unat c < 256"
  shows "length (stringToBinary (message @ delimiter)) = (length message + 9) * 8"
proof -
  from assms delimiter_bytes have "\<forall>c\<in>set (message @ delimiter). unat c < 256" by auto
  then show ?thesis by (simp add: length_stringToBinary_bytes length_delimiter)
qed

lemma encodeMessage_overflow:
  "imageData st = Some data \<Longrightarrow> message \<noteq> [] \<Longrightarrow>
   canvas_width st * canvas_height st < length (stringToBinary (message @ delimiter)) \<Longrightarrow>
   encodeMessage st message =
     \<lparr>alert = CapacityExceeded, converted = [message @ delimiter], after = st\<rparr>"
  by (simp add: encodeMessage_def Let_def)

lemma encodeMessage_fits:
  "imageData st = Some data \<Longrightarrow> message \<noteq> [] \<Longrightarrow>
   length (stringToBinary (message @ delimiter)) \<le> canvas_width st * canvas_height st \<Longrightarrow>
   encodeMessage st message =
     \<lparr>alert = Encoded, converted = [message @ delimiter],
      after = st\<lparr>imageData := Some (encode_loop data (stringToBinary (message @ delimiter)) 0 0)\<rparr>\<rparr>"
  by (simp add: encodeMessage_def Let_def)

lemma alert_Encoded_iff:
  "alert (encodeMessage st message) = Encoded \<longleftrightarrow>
     imageData st \<noteq> None \<and> message \<noteq> []
     \<and> length (stringToBinary (message @ delimiter)) \<le> canvas_width st * canvas_height st"
  by (cases "imageData st") (auto simp: encodeMessage_def Let_def)

lemma alert_CapacityExceeded_iff:
  "alert (encodeMessage st message) = CapacityExceeded \<longleftrightarrow>
     imageData st \<noteq> None \<and> message \<noteq> []
     \<and> canvas_width st * canvas_height st < length (stringToBinary (message @ delimiter))"
  by (cases "imageData st") (auto simp: encodeMessage_def Let_def)

text \<open>
  Claim C3 (atomicity on overflow): \<open>encodeMessage\<close> reports CapacityExceeded exactly
  when there is a buffer, the message is not empty and the framed bit string is longer
  than the pixel count; whenever it does, the globals (and so every byte of the pixel
  buffer) are what they were before the call.
\<close>

theorem capacity_exceeded_is_atomic:
  "(alert (encodeMessage st message) = CapacityExceeded) =
     (imageData st \<noteq> None \<and> message \<noteq> []
      \<and> canvas_width st * canvas_height st < length (stringToBinary (message @ delimiter)))
   \<and> (alert (encodeMessage st message) = CapacityExceeded \<longrightarrow>
        after (encodeMessage st message) = st)"
proof -
  have "after (encodeMessage st message) = st"
    if "alert (encodeMessage st message) = CapacityExceeded"
  proof -
    from that obtain data where "imageData st = Some data" "message \<noteq> []"
      "canvas_width st * canvas_height st < length (stringToBinary (message @ delimiter))"
      by (auto simp: alert_CapacityExceeded_iff)
    then show ?thesis by (simp add: encodeMessage_overflow)
  qed
  then show ?thesis by (simp add: alert_CapacityExceeded_iff)
qed

theorem capacity_exceeded_is_atomic_witness:
  "alert (encodeMessage \<lparr>canvas_width = 2, canvas_height = 2, imageData = Some (replicate 16 7)\<rparr>
            (js ''a'')) = CapacityExceeded
   \<and> after (encodeMessage \<lparr>canvas_width = 2, canvas_height = 2, imageData = Some (replicate 16 7)\<rparr>
            (js ''a''))
     = \<lparr>canvas_width = 2, canvas_height = 2, imageData = Some (replicate 16 7)\<rparr>"
proof -
  have "length (stringToBinary (js ''a'' @ delimiter)) = (length (js ''a'') + 9) * 8"
    by (rule framed_length) (simp add: js_def)
  then have len: "length (stringToBinary (js ''a'' @ delimiter)) = 80" by (simp add: js_def)
  have ne: "js ''a'' \<noteq> []" by (simp add: js_def)
  show ?thesis
    using capacity_exceeded_is_atomic
      [of "\<lparr>canvas_width = 2, canvas_height = 2, imageData = Some (replicate 16 7)\<rparr>" "js ''a''"]
      len ne by simp
qed

text \<open>
  Claim C5 (capacity boundary): with a buffer and a non-empty message of single-byte
  characters, the framed bit length is (message length + 9) * 8; a message whose framed
  bit length is exactly the pixel count is embedded, and one whose framed bit length is
  the pixel count plus one is rejected with CapacityExceeded.
\<close>

theorem capacity_boundary:
  assumes "imageData st = Some data" and "message \<noteq> []"
    and "\<forall>c\<in>set message. unat c < 256"
  shows "length (stringToBinary (message @ delimiter)) = (length message + 9) * 8
       \<and> ((length message + 9) * 8 = canvas_width st * canvas_height st \<longrightarrow>
            alert (encodeMessage st message) = Encoded)
       \<and> ((length message + 9) * 8 = canvas_width st * canvas_height st + 1 \<longrightarrow>
            alert (encodeMessage st message) = CapacityExceeded)"
proof -
  note len = framed_length [OF assms(3)]
  have "alert (encodeMessage st message) = Encoded"
    if "(length message + 9) * 8 = canvas_width st * canvas_height st"
    using that assms(1,2) len by (simp add: alert_Encoded_iff)
  moreover have "alert (encodeMessage st message) = CapacityExceeded"
    if "(length message + 9) * 8 = canvas_width st * canvas_height st + 1"
    using that assms(1,2) len by (simp add: alert_CapacityExceeded_iff)
  ultimately show ?thesis using len by blast
qed

theorem capacity_boundary_witness:
  "alert (encodeMessage \<lparr>canvas_width = 10, canvas_height = 8, imageData = Some (replicate 320 0)\<rparr>
            (js ''a'')) = Encoded
   \<and> alert (encodeMessage \<lparr>canvas_width = 79, canvas_height = 1, imageData = Some (replicate 316 0)\<rparr>
            (js ''a'')) = CapacityExceeded"
proof -
  have ne: "js ''a'' \<noteq> []" and bytes: "\<forall>c\<in>set (js ''a''). unat c < 256" and l: "length (js ''a'') = 1"
    by (simp_all add: js_def)
  have "alert (encodeMessage \<lparr>canvas_width = 10, canvas_height = 8, imageData = Some (replicate 320 0)\<rparr>
            (js ''a'')) = Encoded"
    using capacity_boundary
      [of "\<lparr>canvas_width = 10, canvas_height = 8, imageData = Some (replicate 320 0)\<rparr>"
          "replicate 320 0" "js ''a''", OF _ ne bytes]
    by (simp add: l)
  moreover
  have "alert (encodeMessage \<lparr>canvas_width = 79, canvas_height = 1, imageData = Some (replicate 316 0)\<rparr>
            (js ''a'')) = CapacityExceeded"
    using capacity_boundary
      [of "\<lparr>canvas_width = 79, canvas_height = 1, imageData = Some (replicate 316 0)\<rparr>"
          "replicate 316 0" "js ''a''", OF _ ne bytes]
    by (simp add: l)
  ultimately show ?thesis by simp
qed

text \<open>
  Claim C9 (empty message): a call of \<open>encodeMessage\<close> with the empty text is rejected
  (with the missing-image alert when there is no image, with the empty-input alert
  otherwise); \<open>stringToBinary\<close> is not called, and the globals, the pixel buffer among
  them, are unchanged.
\<close>

theorem empty_message_rejected:
  "alert (encodeMessage st []) = (if imageData st = None then MissingBuffer else EmptyInput)
   \<and> converted (encodeMessage st []) = []
   \<and> after (encodeMessage st []) = st"
proof (cases "imageData st")
  case None
  then have "encodeMessage st [] = \<lparr>alert = MissingBuffer, converted = [], after = st\<rparr>"
    by (simp add: encodeMessage_def)
  with None show ?thesis by simp
next
  case (Some data)
  then have "encodeMessage st [] = \<lparr>alert = EmptyInput, converted = [], after = st\<rparr>"
    by (simp add: encodeMessage_def)
  with Some show ?thesis by simp
qed

text \<open>
  Claim C4 (frame of embedding): after a successful \<open>encodeMessage\<close> whose framed bit
  string has length \<open>L\<close>, the buffer has its old length; every byte that is not the red
  byte of one of the first \<open>L\<close> pixels is unchanged; and every byte keeps its upper seven
  bits, so that its value moves by at most 1.
\<close>

theorem embed_frame:
  assumes "imageData st = Some data" and "alert (encodeMessage st message) = Encoded"
  shows "\<exists>data'. imageData (after (encodeMessage st message)) = Some data'
           \<and> length data' = length data
           \<and> (\<forall>j<length data.
                 (j mod 4 \<noteq> 0 \<or> length (stringToBinary (message @ delimiter)) \<le> j div 4
                    \<longrightarrow> data' ! j = data ! j)
                 \<and> data' ! j AND 0xFE = data ! j AND 0xFE
                 \<and> \<bar>int (unat (data' ! j)) - int (unat (data ! j))\<bar> \<le> 1)"
proof -
  define bin where "bin = stringToBinary (message @ delimiter)"
  define data' where "data' = encode_loop data bin 0 0"
  from assms have "message \<noteq> []" "length bin \<le> canvas_width st * canvas_height st"
    by (simp_all add: alert_Encoded_iff bin_def)
  with assms(1) have after: "imageData (after (encodeMessage st message)) = Some data'"
    by (simp add: encodeMessage_fits bin_def data'_def)
  have len: "length data' = length data"
    by (simp add: data'_def length_encode_loop)
  have frame: "(j mod 4 \<noteq> 0 \<or> length bin \<le> j div 4 \<longrightarrow> data' ! j = data ! j)
             \<and> data' ! j AND 0xFE = data ! j AND 0xFE
             \<and> \<bar>int (unat (data' ! j)) - int (unat (data ! j))\<bar> \<le> 1"
    if "j < length data" for j
  proof -
    have nth: "data' ! j =
           (if j mod 4 = 0 \<and> 0 \<le> j div 4 \<and> j div 4 < length bin
            then (if bin ! (j div 4) = 0x30 then data ! j AND 0xFE else data ! j OR 0x01)
            else data ! j)"
      unfolding data'_def by (rule encode_loop_nth) (use that in simp_all)
    consider "data' ! j = data ! j" "j mod 4 \<noteq> 0 \<or> length bin \<le> j div 4"
      | "data' ! j = data ! j AND 0xFE" "j mod 4 = 0" "j div 4 < length bin"
      | "data' ! j = data ! j OR 0x01" "j mod 4 = 0" "j div 4 < length bin"
      using nth by (auto split: if_splits)
    then show ?thesis
    proof cases
      case 1
      then show ?thesis by simp
    next
      case 2
      have "\<bar>int (unat (data ! j AND 0xFE)) - int (unat (data ! j))\<bar> \<le> 1"
        unfolding unat_and_fe by linarith
      with 2 show ?thesis by (simp add: and_fe_idem)
    next
      case 3
      have "\<bar>int (unat (data ! j OR 0x01)) - int (unat (data ! j))\<bar> \<le> 1"
        unfolding unat_or_one by linarith
      with 3 show ?thesis by (simp add: or_one_and_fe)
    qed
  qed
  from after len frame show ?thesis unfolding bin_def by blast
qed

theorem embed_frame_witness:
  "\<exists>data'. imageData (after (encodeMessage
                \<lparr>canvas_width = 10, canvas_height = 8, imageData = Some (replicate 320 0xFF)\<rparr>
                (js ''a''))) = Some data'
     \<and> length data' = 320
     \<and> data' ! 1 = 0xFF \<and> data' ! 0 AND 0xFE = 0xFE"
proof -
  have ne: "js ''a'' \<noteq> []" and bytes: "\<forall>c\<in>set (js ''a''). unat c < 256" and l: "length (js ''a'') = 1"
    by (simp_all add: js_def)
  have enc: "alert (encodeMessage
                \<lparr>canvas_width = 10, canvas_height = 8, imageData = Some (replicate 320 0xFF)\<rparr>
                (js ''a'')) = Encoded"
    by (simp add: alert_Encoded_iff ne framed_length [OF bytes] l)
  from embed_frame
      [of "\<lparr>canvas_width = 10, canvas_height = 8, imageData = Some (replicate 320 0xFF)\<rparr>"
          "replicate 320 0xFF" "js ''a''", OF _ enc]
  obtain data' where d: "imageData (after (encodeMessage
                \<lparr>canvas_width = 10, canvas_height = 8, imageData = Some (replicate 320 0xFF)\<rparr>
                (js ''a''))) = Some data'"
      "length data' = 320"
      "\<forall>j<320. (j mod 4 \<noteq> 0 \<or> length (stringToBinary (js ''a'' @ delimiter)) \<le> j div 4
                    \<longrightarrow> data' ! j = replicate 320 0xFF ! j)
                 \<and> data' ! j AND 0xFE = replicate 320 0xFF ! j AND 0xFE
                 \<and> \<bar>int (unat (data' ! j)) - int (unat (replicate 320 0xFF ! j :: u8))\<bar> \<le> 1"
    by auto
  from d(3) have "data' ! 1 = 0xFF" "data' ! 0 AND 0xFE = 0xFE"
    by (auto dest: spec [of _ 1] spec [of _ 0])
  with d(1,2) show ?thesis by blast
qed

section \<open>Properties of \<open>decodeMessage\<close>\<close>

lemma length_red_lsbs: "length (red_lsbs data) = (length data + 3) div 4"
  by (simp add: red_lsbs_def)

lemma red_lsbs_nth:
  "k < (length data + 3) div 4 \<Longrightarrow> red_lsbs data ! k = digit_char (unat (data ! (4 * k) AND 0x01))"
  by (simp add: red_lsbs_def)

lemma slice_last_group:
  "8 \<le> length s \<Longrightarrow> slice_from s (int (length s) - 8) = drop (length s - 8) s"
  by (simp add: slice_from_def nat_diff_distrib')

lemma substring0_cut:
  "substring0 s (int (length s) - int n) = take (length s - n) s"
proof -
  have "nat (max (int (length s) - int n) 0) = length s - n" by simp
  then show ?thesis by (simp only: substring0_def)
qed

lemma decode_loop_step:
  assumes "i < length data"
  shows "decode_loop data i bm txt =
    (if length (bm @ [digit_char (unat (data ! i AND 0x01))]) mod 8 = 0 then
       (if endsWith (txt @ [fromCharCode (parseInt2
               (drop (length (bm @ [digit_char (unat (data ! i AND 0x01))]) - 8)
                  (bm @ [digit_char (unat (data ! i AND 0x01))])))]) delimiter
        then Found (take (length (txt @ [fromCharCode (parseInt2
               (drop (length (bm @ [digit_char (unat (data ! i AND 0x01))]) - 8)
                  (bm @ [digit_char (unat (data ! i AND 0x01))])))]) - length delimiter)
               (txt @ [fromCharCode (parseInt2
               (drop (length (bm @ [digit_char (unat (data ! i AND 0x01))]) - 8)
                  (bm @ [digit_char (unat (data ! i AND 0x01))])))]))
        else if at_last_pixel data i
        then exhausted (txt @ [fromCharCode (parseInt2
               (drop (length (bm @ [digit_char (unat (data ! i AND 0x01))]) - 8)
                  (bm @ [digit_char (unat (data ! i AND 0x01))])))])
        else decode_loop data (i + 4) (bm @ [digit_char (unat (data ! i AND 0x01))])
               (txt @ [fromCharCode (parseInt2
               (drop (length (bm @ [digit_char (unat (data ! i AND 0x01))]) - 8)
                  (bm @ [digit_char (unat (data ! i AND 0x01))])))]))
     else if at_last_pixel data i then exhausted txt
     else decode_loop data (i + 4) (bm @ [digit_char (unat (data ! i AND 0x01))]) txt)"
proof (cases "length (bm @ [digit_char (unat (data ! i AND 0x01))]) mod 8 = 0")
  case True
  then have "8 dvd length (bm @ [digit_char (unat (data ! i AND 0x01))])"
    by (simp only: mod_eq_0_iff_dvd)
  then have "8 \<le> length (bm @ [digit_char (unat (data ! i AND 0x01))])"
    by (rule dvd_imp_le) simp
  then have sl: "slice_from (bm @ [digit_char (unat (data ! i AND 0x01))])
                   (int (length (bm @ [digit_char (unat (data ! i AND 0x01))])) - 8)
                 = drop (length (bm @ [digit_char (unat (data ! i AND 0x01))]) - 8)
                     (bm @ [digit_char (unat (data ! i AND 0x01))])"
    by (rule slice_last_group)
  show ?thesis
    apply (subst decode_loop.simps)
    apply (simp only: Let_def assms True if_True sl substring0_cut)
    done
next
  case False
  show ?thesis
    apply (subst decode_loop.simps)
    apply (simp only: Let_def assms False if_True if_False)
    done
qed

lemma decode_loop_scan:
  "decode_loop data (4 * k) bm txt = scan_bits (drop k (red_lsbs data)) bm txt"
proof (induction "length data - 4 * k" arbitrary: k bm "txt" rule: less_induct)
  case less
  show ?case
  proof (cases "4 * k < length data")
    case False
    then have "(length data + 3) div 4 \<le> k" by linarith
    then have "drop k (red_lsbs data) = []" by (simp add: length_red_lsbs)
    with False show ?thesis by (simp add: decode_loop.simps [of data "4 * k"])
  next
    case True
    let ?b = "digit_char (unat (data ! (4 * k) AND 0x01))"
    let ?rest = "drop (Suc k) (red_lsbs data)"
    from True have k: "k < (length data + 3) div 4" by linarith
    then have dr: "drop k (red_lsbs data) = ?b # ?rest"
      by (simp add: length_red_lsbs red_lsbs_nth flip: Cons_nth_drop_Suc)
    have "at_last_pixel data (4 * k) \<longleftrightarrow> (length data + 3) div 4 \<le> Suc k"
      unfolding at_last_pixel_def by linarith
    then have last: "at_last_pixel data (4 * k) \<longleftrightarrow> ?rest = []"
      by (simp add: length_red_lsbs)
    have ih: "decode_loop data (4 * k + 4) bm' txt' = scan_bits ?rest bm' txt'" for bm' txt'
    proof -
      from True have "length data - 4 * Suc k < length data - 4 * k" by simp
      from less [OF this, of bm' txt'] show ?thesis by (simp add: add.commute)
    qed
    show ?thesis
      unfolding decode_loop_step [OF True] dr ih last by (simp add: Let_def)
  qed
qed


lemma scan_skip:
  "bs \<noteq> [] \<Longrightarrow> length bm mod 8 + length w < 8 \<Longrightarrow>
   scan_bits (w @ bs) bm acc = scan_bits bs (bm @ w) acc"
proof (induction w arbitrary: bm)
  case Nil
  then show ?case by simp
next
  case (Cons b w)
  from Cons.prems(2) have m: "Suc (length bm) mod 8 = Suc (length bm mod 8)"
    by (simp add: mod_Suc)
  with Cons.prems have "length (bm @ [b]) mod 8 + length w < 8" by simp
  from Cons.IH [OF Cons.prems(1) this] m Cons.prems(1) show ?case by simp
qed

lemma scan_tail:
  "w \<noteq> [] \<Longrightarrow> length bm mod 8 + length w < 8 \<Longrightarrow> scan_bits w bm acc = exhausted acc"
proof (induction w arbitrary: bm)
  case Nil
  then show ?case by simp
next
  case (Cons b w)
  from Cons.prems(2) have m: "Suc (length bm) mod 8 = Suc (length bm mod 8)"
    by (simp add: mod_Suc)
  show ?case
  proof (cases "w = []")
    case True
    with m show ?thesis by simp
  next
    case False
    from m Cons.prems have "length (bm @ [b]) mod 8 + length w < 8" by simp
    from Cons.IH [OF False this] m False show ?thesis by simp
  qed
qed

lemma scan_group:
  assumes "length bm mod 8 = 0" and "length w = 8"
  shows "scan_bits (w @ bs) bm acc =
     (if endsWith (acc @ [fromCharCode (parseInt2 w)]) delimiter
      then Found (take (length (acc @ [fromCharCode (parseInt2 w)]) - length delimiter)
                    (acc @ [fromCharCode (parseInt2 w)]))
      else if bs = [] then exhausted (acc @ [fromCharCode (parseInt2 w)])
      else scan_bits bs (bm @ w) (acc @ [fromCharCode (parseInt2 w)]))"
proof -
  from assms(2) obtain w7 b where w: "w = w7 @ [b]" and w7: "length w7 = 7"
    by (cases w rule: rev_cases) auto
  have "scan_bits (w @ bs) bm acc = scan_bits (w7 @ (b # bs)) bm acc"
    by (simp add: w)
  also have "\<dots> = scan_bits (b # bs) (bm @ w7) acc"
    by (rule scan_skip) (simp_all add: assms(1) w7)
  finally have step: "scan_bits (w @ bs) bm acc = scan_bits (b # bs) (bm @ w7) acc" .
  from assms(1) w7 have m: "length ((bm @ w7) @ [b]) mod 8 = 0"
    by (simp add: mod_Suc)
  have d: "drop (length ((bm @ w7) @ [b]) - 8) ((bm @ w7) @ [b]) = w"
    by (simp add: w w7)
  have bw: "(bm @ w7) @ [b] = bm @ w" by (simp add: w)
  show ?thesis
    apply (simp only: step scan_bits.simps)
    apply (simp only: m d Let_def if_True)
    apply (simp only: bw)
    apply simp
    done
qed

lemma scan_bits_text:
  "bits \<noteq> [] \<Longrightarrow> length bm mod 8 = 0 \<Longrightarrow>
   scan_bits bits bm acc =
     (case find_end acc (binaryToString bits) of
        Some m \<Rightarrow> Found m
      | None \<Rightarrow> exhausted (acc @ binaryToString bits))"
proof (induction "length bits" arbitrary: bits bm acc rule: less_induct)
  case less
  show ?case
  proof (cases "length bits < 8")
    case True
    with less.prems show ?thesis
      by (simp add: binaryToString_short scan_tail)
  next
    case False
    then have "8 \<le> length bits" by simp
    then obtain w rest where bits: "bits = w @ rest" and w: "length w = 8"
      by (rule split_group)
    let ?c = "fromCharCode (parseInt2 w)"
    have b2s: "binaryToString bits = ?c # binaryToString rest"
      unfolding bits using w by (rule binaryToString_group)
    show ?thesis
    proof (cases "rest = []")
      case True
      then show ?thesis
        unfolding bits scan_group [OF less.prems(2) w]
        by (simp add: binaryToString_group [OF w, of "[]", simplified] binaryToString_short)
    next
      case False
      have "length rest < length bits" by (simp add: bits w)
      moreover note False
      moreover from less.prems(2) w have "length (bm @ w) mod 8 = 0" by simp
      ultimately have ih: "scan_bits rest (bm @ w) (acc @ [?c]) =
          (case find_end (acc @ [?c]) (binaryToString rest) of
             Some m \<Rightarrow> Found m
           | None \<Rightarrow> exhausted ((acc @ [?c]) @ binaryToString rest))"
        by (rule less.hyps)
      show ?thesis
        unfolding b2s unfolding bits scan_group [OF less.prems(2) w] ih
        using False by (simp split: option.split)
    qed
  qed
qed

lemma red_lsbs_nonempty: "data \<noteq> [] \<Longrightarrow> red_lsbs data \<noteq> []"
proof -
  assume "data \<noteq> []"
  then have "0 < length data" by simp
  then have "0 < (length data + 3) div 4" by linarith
  then show ?thesis unfolding length_red_lsbs [symmetric] by simp
qed

lemma decodeMessage_text:
  assumes "imageData st = Some data" and "data \<noteq> []"
  shows "decodeMessage st =
     (case find_end [] (binaryToString (red_lsbs data)) of
        Some m \<Rightarrow> Found m
      | None \<Rightarrow> exhausted (binaryToString (red_lsbs data)))"
proof -
  have "decodeMessage st = decode_loop data (4 * 0) [] []"
    using assms(1) by (simp add: decodeMessage_def)
  also have "\<dots> = scan_bits (drop 0 (red_lsbs data)) [] []"
    by (rule decode_loop_scan)
  also have "\<dots> = (case find_end [] (binaryToString (red_lsbs data)) of
        Some m \<Rightarrow> Found m
      | None \<Rightarrow> exhausted ([] @ binaryToString (red_lsbs data)))"
    unfolding drop_0 by (rule scan_bits_text) (simp_all add: red_lsbs_nonempty assms(2))
  finally show ?thesis unfolding append_Nil .
qed

text \<open>
  Claim C2 (extraction is total): on a buffer of \<open>4 * width * height\<close> bytes with
  \<open>width, height \<ge> 1\<close>, \<open>decodeMessage\<close> ends in one of the three results Found,
  NotFound and Empty. With \<open>T\<close> the text decoded from the red low bits of all pixels:
  the result is \<open>Found m\<close> when the delimiter ends a prefix of \<open>T\<close> (\<open>m\<close> is the text
  before its first such occurrence); otherwise the scan has reached the last pixel and
  the result is \<open>NotFound T\<close> when \<open>T\<close> is not empty and \<open>Empty\<close> when it is.
\<close>

theorem extraction_total:
  assumes "imageData st = Some data"
    and "length data = 4 * canvas_width st * canvas_height st"
    and "1 \<le> canvas_width st" and "1 \<le> canvas_height st"
  shows "is_result (decodeMessage st)
       \<and> decodeMessage st =
           (case find_end [] (binaryToString (red_lsbs data)) of
              Some m \<Rightarrow> Found m
            | None \<Rightarrow> if binaryToString (red_lsbs data) \<noteq> []
                      then NotFound (binaryToString (red_lsbs data)) else Empty)"
proof -
  from assms(3,4) have "0 < canvas_width st * canvas_height st" by simp
  with assms(2) have "data \<noteq> []" by auto
  from decodeMessage_text [OF assms(1) this] show ?thesis
    by (simp add: exhausted_def split: option.split)
qed

theorem extraction_total_witness:
  "decodeMessage \<lparr>canvas_width = 4, canvas_height = 2, imageData = Some (replicate 32 0xFF)\<rparr>
     = NotFound [0xFF]
   \<and> decodeMessage \<lparr>canvas_width = 1, canvas_height = 1, imageData = Some [1, 2, 3, 0xFF]\<rparr>
     = Empty"
proof -
  have a: "red_lsbs (replicate 32 (0xFF :: u8)) = js ''11111111''"
    by code_simp
  have b: "red_lsbs [1, 2, 3, 0xFF :: u8] = js ''1''"
    by code_simp
  have c: "binaryToString (js ''11111111'') = [0xFF]" "binaryToString (js ''1'') = []"
    by code_simp+
  from extraction_total
    [of "\<lparr>canvas_width = 4, canvas_height = 2, imageData = Some (replicate 32 0xFF)\<rparr>"
        "replicate 32 0xFF"]
  have "decodeMessage \<lparr>canvas_width = 4, canvas_height = 2, imageData = Some (replicate 32 0xFF)\<rparr>
     = NotFound [0xFF]"
    by (simp add: a c endsWith_def length_delimiter)
  moreover
  from extraction_total
    [of "\<lparr>canvas_width = 1, canvas_height = 1, imageData = Some [1, 2, 3, 0xFF]\<rparr>"
        "[1, 2, 3, 0xFF]"]
  have "decodeMessage \<lparr>canvas_width = 1, canvas_height = 1, imageData = Some [1, 2, 3, 0xFF]\<rparr>
     = Empty"
    by (simp add: b c)
  ultimately show ?thesis by simp
qed

section \<open>Extraction after embedding\<close>

lemma bit_chars_toString2: "c \<in> set (toString2 n) \<Longrightarrow> is_bit_char c"
proof (induction n arbitrary: c rule: toString2.induct)
  case (1 n)
  show ?case
  proof (cases "n < 2")
    case True
    then have "n = 0 \<or> n = 1" by auto
    with 1(2) show ?thesis
      by (auto simp: toString2_small digit_char_simps is_bit_char_def)
  next
    case False
    with 1 show ?thesis
      by (auto simp: toString2_big is_bit_char_digit)
  qed
qed

lemma bit_chars_charBinary: "c \<in> set (charBinary x) \<Longrightarrow> is_bit_char c"
  by (auto simp: charBinary_def padStart_eq is_bit_char_def dest: bit_chars_toString2)

lemma bit_chars_stringToBinary: "c \<in> set (stringToBinary s) \<Longrightarrow> is_bit_char c"
  by (auto simp: stringToBinary_eq dest: bit_chars_charBinary)

lemma red_lsbs_encode_loop:
  assumes "\<forall>c\<in>set bin. is_bit_char c" and "length bin \<le> (length data + 3) div 4"
  shows "red_lsbs (encode_loop data bin 0 0) = bin @ drop (length bin) (red_lsbs data)"
proof (rule nth_equalityI)
  show "length (red_lsbs (encode_loop data bin 0 0)) = length (bin @ drop (length bin) (red_lsbs data))"
    using assms(2) by (simp add: length_red_lsbs length_encode_loop)
next
  fix k
  assume "k < length (red_lsbs (encode_loop data bin 0 0))"
  then have k: "k < (length data + 3) div 4"
    by (simp add: length_red_lsbs length_encode_loop)
  then have k4: "4 * k < length data" by linarith
  have nth: "encode_loop data bin 0 0 ! (4 * k) =
           (if 4 * k mod 4 = 0 \<and> 0 \<le> 4 * k div 4 \<and> 4 * k div 4 < length bin
            then (if bin ! (4 * k div 4) = 0x30 then data ! (4 * k) AND 0xFE else data ! (4 * k) OR 0x01)
            else data ! (4 * k))"
    by (rule encode_loop_nth) (use k4 in simp_all)
  have l: "red_lsbs (encode_loop data bin 0 0) ! k
             = digit_char (unat (encode_loop data bin 0 0 ! (4 * k) AND 0x01))"
    by (rule red_lsbs_nth) (simp add: length_encode_loop k)
  show "red_lsbs (encode_loop data bin 0 0) ! k = (bin @ drop (length bin) (red_lsbs data)) ! k"
  proof (cases "k < length bin")
    case True
    with assms(1) have "is_bit_char (bin ! k)" by simp
    then have "bin ! k = 0x30 \<or> (bin ! k \<noteq> 0x30 \<and> bin ! k = 0x31)"
      by (auto simp: is_bit_char_def)
    then show ?thesis
      using True by (auto simp: l nth and_fe_lsb or_one_lsb digit_char_simps nth_append)
  next
    case False
    with k show ?thesis
      by (simp add: l nth nth_append red_lsbs_nth length_red_lsbs)
  qed
qed

lemma find_end_append:
  "find_end acc (a @ b) =
     (case find_end acc a of Some m \<Rightarrow> Some m | None \<Rightarrow> find_end (acc @ a) b)"
  by (induction a arbitrary: acc) (simp_all split: option.split)

lemma find_end_None:
  "(\<forall>j. 0 < j \<and> j \<le> length s \<longrightarrow> \<not> endsWith (acc @ take j s) delimiter) \<Longrightarrow>
   find_end acc s = None"
proof (induction s arbitrary: acc)
  case Nil
  then show ?case by simp
next
  case (Cons c s)
  from Cons.prems [rule_format, of 1] have one: "\<not> endsWith (acc @ [c]) delimiter" by simp
  have "\<not> endsWith ((acc @ [c]) @ take j s) delimiter" if "0 < j \<and> j \<le> length s" for j
    using Cons.prems [rule_format, of "Suc j"] that by simp
  then have "find_end (acc @ [c]) s = None" by (intro Cons.IH) blast
  with one show ?case by simp
qed

lemma find_end_Some:
  "s \<noteq> [] \<Longrightarrow> endsWith (acc @ s) delimiter \<Longrightarrow> \<exists>m. find_end acc s = Some m"
proof (induction s arbitrary: acc)
  case Nil
  then show ?case by simp
next
  case (Cons c s)
  show ?case
  proof (cases "endsWith (acc @ [c]) delimiter")
    case True
    then show ?thesis by simp
  next
    case False
    with Cons.prems have "s \<noteq> []" by auto
    moreover from Cons.prems(2) have "endsWith ((acc @ [c]) @ s) delimiter" by simp
    ultimately have "\<exists>m. find_end (acc @ [c]) s = Some m" by (rule Cons.IH)
    with False show ?thesis by simp
  qed
qed

lemma endsWith_framed: "endsWith (message @ delimiter) delimiter"
  by (simp add: endsWith_def)

lemma decode_after_encode:
  assumes buf: "imageData st = Some data"
    and len: "length data = 4 * canvas_width st * canvas_height st"
    and ne: "message \<noteq> []"
    and bytes: "\<forall>c\<in>set message. unat c < 256"
    and fits: "(length message + 9) * 8 \<le> canvas_width st * canvas_height st"
  shows "alert (encodeMessage st message) = Encoded
       \<and> (\<exists>m. find_end [] (message @ delimiter) = Some m
              \<and> decodeMessage (after (encodeMessage st message)) = Found m)"
proof -
  define bin where "bin = stringToBinary (message @ delimiter)"
  define data' where "data' = encode_loop data bin 0 0"
  define tail where "tail = binaryToString (drop (length bin) (red_lsbs data))"
  have lbin: "length bin = (length message + 9) * 8"
    unfolding bin_def by (rule framed_length [OF bytes])
  with fits have cap: "length bin \<le> canvas_width st * canvas_height st" by simp
  have run: "encodeMessage st message =
     \<lparr>alert = Encoded, converted = [message @ delimiter],
      after = st\<lparr>imageData := Some data'\<rparr>\<rparr>"
    unfolding data'_def bin_def
    by (rule encodeMessage_fits [OF buf ne]) (use cap in \<open>simp add: bin_def\<close>)
  have pix: "(length data + 3) div 4 = canvas_width st * canvas_height st"
    by (simp add: len)
  from fits have "0 < canvas_width st * canvas_height st"
    by (cases "canvas_width st * canvas_height st") simp_all
  with len have "data \<noteq> []" by auto
  then have ne': "data' \<noteq> []"
    using length_encode_loop [of data bin 0 0] by (auto simp: data'_def)
  have "red_lsbs data' = bin @ drop (length bin) (red_lsbs data)"
    unfolding data'_def
    by (rule red_lsbs_encode_loop) (simp_all add: bin_def bit_chars_stringToBinary pix cap [unfolded bin_def])
  moreover from bytes delimiter_bytes have "\<forall>c\<in>set (message @ delimiter). unat c < 256"
    by auto
  ultimately have decoded: "binaryToString (red_lsbs data') = (message @ delimiter) @ tail"
    by (simp add: bin_def tail_def binaryToString_stringToBinary)
  obtain m where m: "find_end [] (message @ delimiter) = Some m"
    using find_end_Some [of "message @ delimiter" "[]"] ne endsWith_framed [of message]
    by auto
  then have "find_end [] ((message @ delimiter) @ tail) = Some m"
    by (simp only: find_end_append option.case)
  then have "decodeMessage (st\<lparr>imageData := Some data'\<rparr>) = Found m"
    using decodeMessage_text [of "st\<lparr>imageData := Some data'\<rparr>" data'] ne'
    by (simp add: decoded)
  with m show ?thesis by (simp add: run)
qed

lemma find_end_length:
  "find_end acc s = Some m \<Longrightarrow> length m + length delimiter \<le> length acc + length s"
proof (induction s arbitrary: acc)
  case Nil
  then show ?case by simp
next
  case (Cons c s)
  show ?case
  proof (cases "endsWith (acc @ [c]) delimiter")
    case True
    then have "length delimiter \<le> length (acc @ [c])" by (simp add: endsWith_def)
    with True Cons.prems show ?thesis by auto
  next
    case False
    with Cons.prems have "find_end (acc @ [c]) s = Some m" by simp
    from Cons.IH [OF this] show ?thesis by simp
  qed
qed

lemma find_end_framed:
  "find_end [] (message @ delimiter) = Some message \<longleftrightarrow>
     (\<forall>j. 0 < j \<and> j < length message + 9 \<longrightarrow> \<not> endsWith (take j (message @ delimiter)) delimiter)"
proof
  let ?F = "message @ delimiter"
  assume found: "find_end [] ?F = Some message"
  show "\<forall>j. 0 < j \<and> j < length message + 9 \<longrightarrow> \<not> endsWith (take j ?F) delimiter"
  proof (intro allI impI notI)
    fix j
    assume j: "0 < j \<and> j < length message + 9" and e: "endsWith (take j ?F) delimiter"
    from j have lj: "length (take j ?F) = j" by (simp del: take_append add: length_delimiter)
    with j have "take j ?F \<noteq> []" by auto
    with e obtain m where m: "find_end [] (take j ?F) = Some m"
      using find_end_Some [of "take j ?F" "[]"] by auto
    from find_end_length [OF m] j have "length m < length message"
      unfolding lj length_delimiter by simp
    moreover have "find_end [] (take j ?F @ drop j ?F) = Some m"
      by (simp only: find_end_append m option.case)
    then have "find_end [] ?F = Some m" by (simp only: append_take_drop_id)
    ultimately show False using found by auto
  qed
next
  let ?F = "message @ delimiter"
  let ?P = "butlast ?F"
  assume clean: "\<forall>j. 0 < j \<and> j < length message + 9 \<longrightarrow> \<not> endsWith (take j ?F) delimiter"
  have "?F \<noteq> []" using length_delimiter by auto
  then have F: "?F = ?P @ [last ?F]" by (rule append_butlast_last_id [symmetric])
  have lP: "length ?P = length message + 8" by (simp add: length_delimiter)
  have "\<not> endsWith ([] @ take j ?P) delimiter" if "0 < j \<and> j \<le> length ?P" for j
  proof -
    from that lP have "j < length ?F" by (simp add: length_delimiter)
    then have "take j ?P = take j ?F" by (rule take_butlast)
    with clean that lP show ?thesis by simp
  qed
  then have none: "find_end [] ?P = None" by (intro find_end_None) blast
  have "find_end [] (?P @ [last ?F]) = find_end ([] @ ?P) [last ?F]"
    by (simp only: find_end_append none option.case)
  also have "\<dots> = Some (take (length ?F - length delimiter) ?F)"
    using endsWith_framed [of message] by (simp flip: F)
  also have "take (length ?F - length delimiter) ?F = message" by simp
  finally show "find_end [] ?F = Some message" by (simp flip: F)
qed

lemma find_end_first:
  "find_end acc s = Some m \<Longrightarrow>
   \<exists>j. 0 < j \<and> j \<le> length s
     \<and> endsWith (acc @ take j s) delimiter
     \<and> (\<forall>i. 0 < i \<and> i < j \<longrightarrow> \<not> endsWith (acc @ take i s) delimiter)
     \<and> m = take (length acc + j - length delimiter) (acc @ take j s)"
proof (induction s arbitrary: acc)
  case Nil
  then show ?case by simp
next
  case (Cons c s)
  show ?case
  proof (cases "endsWith (acc @ [c]) delimiter")
    case True
    with Cons.prems have m: "m = take (length acc + 1 - length delimiter) (acc @ [c])" by auto
    show ?thesis
    proof (intro exI [of _ 1] conjI)
      show "endsWith (acc @ take 1 (c # s)) delimiter" using True by simp
      show "m = take (length acc + 1 - length delimiter) (acc @ take 1 (c # s))" using m by simp
    qed simp_all
  next
    case False
    with Cons.prems have "find_end (acc @ [c]) s = Some m" by simp
    from Cons.IH [OF this] obtain j where j: "0 < j" "j \<le> length s"
      "endsWith ((acc @ [c]) @ take j s) delimiter"
      "\<forall>i. 0 < i \<and> i < j \<longrightarrow> \<not> endsWith ((acc @ [c]) @ take i s) delimiter"
      "m = take (length (acc @ [c]) + j - length delimiter) ((acc @ [c]) @ take j s)"
      by blast
    have early: "\<not> endsWith (acc @ take i (c # s)) delimiter" if "0 < i \<and> i < Suc j" for i
    proof (cases i)
      case 0
      with that show ?thesis by simp
    next
      case (Suc i')
      show ?thesis
      proof (cases "i' = 0")
        case True
        with Suc False show ?thesis by simp
      next
        case False
        with that Suc j(4) [rule_format, of i'] show ?thesis by simp
      qed
    qed
    show ?thesis
    proof (intro exI [of _ "Suc j"] conjI allI impI)
      show "endsWith (acc @ take (Suc j) (c # s)) delimiter" using j(3) by simp
      show "m = take (length acc + Suc j - length delimiter) (acc @ take (Suc j) (c # s))"
        using j(5) by simp
      show "Suc j \<le> length (c # s)" using j(2) by simp
      show "\<not> endsWith (acc @ take i (c # s)) delimiter" if "0 < i \<and> i < Suc j" for i
        using that by (rule early)
    qed simp
  qed
qed


text \<open>
  Claim C1 (round trip), as amended: let the buffer have \<open>4 * width * height\<close> bytes, the
  message be non-empty with all code units in 0..255, and \<open>(length + 9) * 8\<close> be at most
  the pixel count. Then the embedding succeeds, and extraction returns \<open>Found\<close> of the
  framed text \<open>message @ delimiter\<close> cut 9 characters before the end of its shortest
  prefix that ends with the delimiter: the text before the first occurrence of the
  delimiter. That text is the message exactly when the delimiter ends no proper prefix of
  the framed text.
\<close>

theorem roundtrip:
  assumes "imageData st = Some data"
    and "length data = 4 * canvas_width st * canvas_height st"
    and "message \<noteq> []"
    and "\<forall>c\<in>set message. unat c < 256"
    and "(length message + 9) * 8 \<le> canvas_width st * canvas_height st"
  shows "alert (encodeMessage st message) = Encoded
       \<and> (\<exists>j. 0 < j \<and> j \<le> length message + 9
             \<and> endsWith (take j (message @ delimiter)) delimiter
             \<and> (\<forall>i. 0 < i \<and> i < j \<longrightarrow> \<not> endsWith (take i (message @ delimiter)) delimiter)
             \<and> decodeMessage (after (encodeMessage st message))
                 = Found (take (j - 9) (message @ delimiter)))
       \<and> (decodeMessage (after (encodeMessage st message)) = Found message \<longleftrightarrow>
            (\<forall>j. 0 < j \<and> j < length message + 9 \<longrightarrow>
                 \<not> endsWith (take j (message @ delimiter)) delimiter))"
proof -
  from decode_after_encode [OF assms]
  obtain m where enc: "alert (encodeMessage st message) = Encoded"
    and m: "find_end [] (message @ delimiter) = Some m"
    and dec: "decodeMessage (after (encodeMessage st message)) = Found m" by blast
  from find_end_first [OF m] obtain j where j: "0 < j" "j \<le> length (message @ delimiter)"
    "endsWith ([] @ take j (message @ delimiter)) delimiter"
    "\<forall>i. 0 < i \<and> i < j \<longrightarrow> \<not> endsWith ([] @ take i (message @ delimiter)) delimiter"
    "m = take (length ([] :: jsstring) + j - length delimiter) ([] @ take j (message @ delimiter))"
    by blast
  have "take (j - 9) (take j (message @ delimiter)) = take (j - 9) (message @ delimiter)"
    by (simp only: take_take) (simp add: min_def)
  with j(5) have mj: "m = take (j - 9) (message @ delimiter)"
    by (simp add: length_delimiter del: take_append)
  have first: "\<exists>j. 0 < j \<and> j \<le> length message + 9
             \<and> endsWith (take j (message @ delimiter)) delimiter
             \<and> (\<forall>i. 0 < i \<and> i < j \<longrightarrow> \<not> endsWith (take i (message @ delimiter)) delimiter)
             \<and> decodeMessage (after (encodeMessage st message))
                 = Found (take (j - 9) (message @ delimiter))"
  proof (intro exI [of _ j] conjI)
    show "j \<le> length message + 9" using j(2) by (simp add: length_delimiter)
    show "endsWith (take j (message @ delimiter)) delimiter" using j(3) by (simp only: append_Nil)
    show "\<forall>i. 0 < i \<and> i < j \<longrightarrow> \<not> endsWith (take i (message @ delimiter)) delimiter"
      using j(4) by (simp only: append_Nil)
    show "decodeMessage (after (encodeMessage st message)) = Found (take (j - 9) (message @ delimiter))"
      using dec mj by (simp only:)
  qed (rule j(1))
  from m dec have "decodeMessage (after (encodeMessage st message)) = Found message
             \<longleftrightarrow> find_end [] (message @ delimiter) = Some message" by auto
  then have iff: "decodeMessage (after (encodeMessage st message)) = Found message \<longleftrightarrow>
            (\<forall>j. 0 < j \<and> j < length message + 9 \<longrightarrow>
                 \<not> endsWith (take j (message @ delimiter)) delimiter)"
    by (simp only: find_end_framed)
  from enc first iff show ?thesis by blast
qed


theorem roundtrip_witness:
  "decodeMessage (after (encodeMessage
      \<lparr>canvas_width = 10, canvas_height = 8, imageData = Some (replicate 320 0xFF)\<rparr> (js ''a'')))
   = Found (js ''a'')"
proof -
  have "\<not> endsWith (take j (js ''a'' @ delimiter)) delimiter" if "0 < j \<and> j < length (js ''a'') + 9" for j
  proof (cases "j = 9")
    case True
    then show ?thesis by (simp add: endsWith_def delimiter_def js_def)
  next
    case False
    with that have "j < 9" by (simp add: js_def)
    then show ?thesis by (simp add: endsWith_def length_delimiter js_def)
  qed
  then show ?thesis
    using roundtrip
      [of "\<lparr>canvas_width = 10, canvas_height = 8, imageData = Some (replicate 320 0xFF)\<rparr>"
          "replicate 320 0xFF" "js ''a''", THEN conjunct2, THEN conjunct2]
    by (simp add: js_def)
qed

text \<open>
  The round trip does not hold for every message that fits: the message \<open>a|||END\<close> does
  not contain the delimiter, but its last six characters and the first three of the
  appended delimiter form one, and extraction stops there.
\<close>

theorem roundtrip_counterexample:
  "(length (js ''a|||END'') + 9) * 8 \<le> 16 * 8
   \<and> decodeMessage (after (encodeMessage
        \<lparr>canvas_width = 16, canvas_height = 8, imageData = Some (replicate 512 0xFF)\<rparr>
        (js ''a|||END'')))
      = Found (js ''a'')
   \<and> Found (js ''a'') \<noteq> Found (js ''a|||END'')"
proof -
  have f: "find_end [] (js ''a|||END'' @ delimiter) = Some (js ''a'')"
    by code_simp
  have "alert (encodeMessage
        \<lparr>canvas_width = 16, canvas_height = 8, imageData = Some (replicate 512 0xFF)\<rparr>
        (js ''a|||END'')) = Encoded
       \<and> (\<exists>m. find_end [] (js ''a|||END'' @ delimiter) = Some m
              \<and> decodeMessage (after (encodeMessage
        \<lparr>canvas_width = 16, canvas_height = 8, imageData = Some (replicate 512 0xFF)\<rparr>
        (js ''a|||END''))) = Found m)"
    by (rule decode_after_encode [where data = "replicate 512 0xFF"]) (simp_all add: js_def)
  with f have "decodeMessage (after (encodeMessage
        \<lparr>canvas_width = 16, canvas_height = 8, imageData = Some (replicate 512 0xFF)\<rparr>
        (js ''a|||END''))) = Found (js ''a'')" by simp
  then show ?thesis by (simp add: js_def)
qed

text \<open>
  Claim C6 (delimiter truncation): when the message \<open>ab|||END|||cd\<close> has been embedded,
  extraction returns \<open>Found\<close> of \<open>ab\<close>, the text before the first delimiter of the
  decoded stream, and not the message.
\<close>

theorem delimiter_truncation:
  assumes "imageData st = Some data"
    and "length data = 4 * canvas_width st * canvas_height st"
    and "alert (encodeMessage st (js ''ab|||END|||cd'')) = Encoded"
  shows "decodeMessage (after (encodeMessage st (js ''ab|||END|||cd''))) = Found (js ''ab'')
       \<and> Found (js ''ab'') \<noteq> Found (js ''ab|||END|||cd'')"
proof -
  have bytes: "\<forall>c\<in>set (js ''ab|||END|||cd''). unat c < 256" and ne: "js ''ab|||END|||cd'' \<noteq> []"
    by (simp_all add: js_def)
  from assms(3) have "length (stringToBinary (js ''ab|||END|||cd'' @ delimiter))
       \<le> canvas_width st * canvas_height st"
    by (simp add: alert_Encoded_iff)
  then have fits: "(length (js ''ab|||END|||cd'') + 9) * 8 \<le> canvas_width st * canvas_height st"
    by (simp only: framed_length [OF bytes])
  have f: "find_end [] (js ''ab|||END|||cd'' @ delimiter) = Some (js ''ab'')"
    by code_simp
  from decode_after_encode [OF assms(1,2) ne bytes fits] f
  have "decodeMessage (after (encodeMessage st (js ''ab|||END|||cd''))) = Found (js ''ab'')"
    by simp
  then show ?thesis by (simp add: js_def)
qed

theorem delimiter_truncation_witness:
  "decodeMessage (after (encodeMessage
      \<lparr>canvas_width = 16, canvas_height = 11, imageData = Some (replicate 704 0x80)\<rparr>
      (js ''ab|||END|||cd''))) = Found (js ''ab'')"
proof -
  have bytes: "\<forall>c\<in>set (js ''ab|||END|||cd''). unat c < 256" and ne: "js ''ab|||END|||cd'' \<noteq> []"
    and l: "length (js ''ab|||END|||cd'') = 13"
    by (simp_all add: js_def)
  have enc: "alert (encodeMessage
      \<lparr>canvas_width = 16, canvas_height = 11, imageData = Some (replicate 704 0x80)\<rparr>
      (js ''ab|||END|||cd'')) = Encoded"
    by (simp add: alert_Encoded_iff ne framed_length [OF bytes] l)
  from delimiter_truncation
      [of "\<lparr>canvas_width = 16, canvas_height = 11, imageData = Some (replicate 704 0x80)\<rparr>"
          "replicate 704 0x80", OF _ _ enc]
  show ?thesis by simp
qed

end
